theory Spec2Isabelle
  imports Complex_Main
begin

section \<open>Time values\<close>

text \<open>
  A \<open>time.Time\<close> instant is modelled as an integer count of nanoseconds; a
  \<open>time.Duration\<close> is Go's \<open>int64\<close> count of nanoseconds.  \<open>Time.Sub\<close> saturates
  at the largest and smallest \<open>Duration\<close>; unary minus on a \<open>Duration\<close> wraps at the
  smallest one.  \<open>float64\<close> values (readings, derivatives, the threshold and the result
  of \<open>Duration.Seconds\<close>) are idealised as real numbers.
\<close>

type_synonym Time = int
type_synonym Duration = int

definition maxDuration :: Duration where
  "maxDuration = 9223372036854775807"

definition minDuration :: Duration where
  "minDuration = - 9223372036854775808"

definition time_Sub :: "Time \<Rightarrow> Time \<Rightarrow> Duration" where
  "time_Sub t u =
     (if t - u > maxDuration then maxDuration
      else if t - u < minDuration then minDuration
      else t - u)"

definition time_Add :: "Time \<Rightarrow> Duration \<Rightarrow> Time" where
  "time_Add t d = t + d"

definition time_After :: "Time \<Rightarrow> Time \<Rightarrow> bool" where
  "time_After t u = (u < t)"

definition duration_neg :: "Duration \<Rightarrow> Duration" where
  "duration_neg d = (if d = minDuration then minDuration else - d)"

definition Seconds :: "Duration \<Rightarrow> real" where
  "Seconds d = real_of_int d / 1000000000"

section \<open>Data model\<close>

record Sample =
  Timestamp :: Time
  Reading :: real
  Voltage :: real
  HeaterPower :: real

record Pulse =
  StartIndex :: int
  EndIndex :: int
  StartTime :: Time
  EndTime :: Time
  RawValue :: real
  Power :: real

text \<open>
  A registered callback is an opaque function value; it is modelled by an identifier,
  \<open>None\<close> standing for a \<open>nil\<close> function.  Invoking a callback is recorded as a
  \<open>Call\<close>: the identifier and the three copied buffers it received.
\<close>

type_synonym Callback = "nat option"
type_synonym Call = "nat \<times> Sample list \<times> real list \<times> Pulse list"

record Meter =
  samples :: "Sample list"
  derivatives :: "real list"
  pulses :: "Pulse list"
  callbacks :: "Callback list"
  windowDuration :: Duration
  threshold :: real
  minPulseDuration :: Duration
  shutdown :: bool

text \<open>
  \<open>New\<close> takes the three configuration values after their conversion from the
  configuration's seconds to \<open>Duration\<close>.
\<close>

definition New :: "Duration \<Rightarrow> real \<Rightarrow> Duration \<Rightarrow> Meter" where
  "New w th mpd =
     \<lparr>samples = [], derivatives = [], pulses = [], callbacks = [],
      windowDuration = w, threshold = th, minPulseDuration = mpd, shutdown = False\<rparr>"

section \<open>processSample: the sample and derivative buffers\<close>

text \<open>
  The loop that looks for the first sample after the cutoff time; the result stays 0 when
  no sample is after it.
\<close>

fun findCutoff :: "Time \<Rightarrow> Sample list \<Rightarrow> nat \<Rightarrow> nat" where
  "findCutoff c [] i = 0"
| "findCutoff c (x # xs) i =
     (if time_After (Timestamp x) c then i else findCutoff c xs (Suc i))"

definition shiftPulse :: "int \<Rightarrow> Pulse \<Rightarrow> Pulse" where
  "shiftPulse c p = p\<lparr>StartIndex := StartIndex p - c, EndIndex := EndIndex p - c\<rparr>"

text \<open>The body of \<open>if cutoffIndex > 0\<close>.\<close>

definition evict :: "nat \<Rightarrow> Meter \<Rightarrow> Meter" where
  "evict c m =
     m\<lparr>samples := drop c (samples m),
       derivatives := (if c \<le> length (derivatives m) then drop c (derivatives m) else []),
       pulses := filter (\<lambda>p. 0 \<le> StartIndex p \<and> 0 \<le> EndIndex p)
                   (map (shiftPulse (int c)) (pulses m))\<rparr>"

text \<open>The body of \<open>if len(m.samples) >= 2\<close>.\<close>

definition appendDerivative :: "Meter \<Rightarrow> Meter" where
  "appendDerivative m =
     (if 2 \<le> length (samples m) then
        let lastIdx = length (samples m) - 1;
            prev = samples m ! (lastIdx - 1);
            curr = samples m ! lastIdx;
            dt = Seconds (time_Sub (Timestamp curr) (Timestamp prev))
        in if 0 < dt then
             let ds = derivatives m @ [(Reading curr - Reading prev) / dt]
             in m\<lparr>derivatives := (if length (samples m) - 1 < length ds then tl ds else ds)\<rparr>
           else m
      else m)"

section \<open>updatePulses\<close>

text \<open>
  Indexing a slice out of range panics in Go: \<open>sampleAt\<close> returns \<open>None\<close> there, and
  \<open>updatePulses\<close> and \<open>processSample\<close> return \<open>None\<close> for a run that panics.
\<close>

definition sampleAt :: "Sample list \<Rightarrow> int \<Rightarrow> Sample option" where
  "sampleAt xs i = (if 0 \<le> i \<and> i < int (length xs) then Some (xs ! nat i) else None)"

text \<open>
  The backward loop over the pulses: the greatest index whose pulse ends at \<open>e\<close>
  (\<open>None\<close> for the source's \<open>-1\<close>).
\<close>

fun findActivePulse :: "Pulse list \<Rightarrow> int \<Rightarrow> nat option" where
  "findActivePulse [] e = None"
| "findActivePulse (p # ps) e =
     (case findActivePulse ps e of
        Some i \<Rightarrow> Some (Suc i)
      | None \<Rightarrow> (if EndIndex p = e then Some 0 else None))"

definition extendPulse :: "Pulse \<Rightarrow> int \<Rightarrow> Time \<Rightarrow> real \<Rightarrow> Pulse" where
  "extendPulse p idx t d = p\<lparr>EndIndex := idx, EndTime := t, RawValue := d\<rparr>"

text \<open>
  The value of \<open>shouldStart\<close> when no active pulse was found: true unless there is a
  previous derivative above the threshold; in that case true only when there is a last
  pulse and a gap after it.
\<close>

definition shouldStart :: "Meter \<Rightarrow> bool" where
  "shouldStart m =
     (let lastDerivIdx = length (derivatives m) - 1;
          lastSampleIdx = int (length (samples m)) - 1
      in if 0 < lastDerivIdx then
           (if threshold m < derivatives m ! (lastDerivIdx - 1) then
              (if pulses m \<noteq> [] then EndIndex (last (pulses m)) + 1 < lastSampleIdx - 1
               else False)
            else True)
         else True)"

text \<open>The body of \<open>if isHeating\<close>: the pulse list after detection, before the filter.\<close>

definition heatingPulses :: "Meter \<Rightarrow> Pulse list option" where
  "heatingPulses m =
     (let lastDeriv = last (derivatives m);
          lastSampleIdx = int (length (samples m)) - 1
      in case findActivePulse (pulses m) (lastSampleIdx - 1) of
           Some a \<Rightarrow>
             (case sampleAt (samples m) lastSampleIdx of
                None \<Rightarrow> None
              | Some sl \<Rightarrow>
                  Some ((pulses m)[a := extendPulse (pulses m ! a) lastSampleIdx
                                           (Timestamp sl) lastDeriv]))
         | None \<Rightarrow>
             if shouldStart m then
               (let startIdx = (if lastSampleIdx - 1 < 0 then 0 else lastSampleIdx - 1)
                in case sampleAt (samples m) startIdx of
                     None \<Rightarrow> None
                   | Some ss \<Rightarrow>
                       (case sampleAt (samples m) lastSampleIdx of
                          None \<Rightarrow> None
                        | Some sl \<Rightarrow>
                            Some (pulses m @
                              [\<lparr>StartIndex = startIdx, EndIndex = lastSampleIdx,
                                StartTime = Timestamp ss, EndTime = Timestamp sl,
                                RawValue = lastDeriv, Power = 0\<rparr>])))
             else if pulses m \<noteq> [] then
               (if lastSampleIdx \<le> EndIndex (last (pulses m)) + 2 then
                  (case sampleAt (samples m) lastSampleIdx of
                     None \<Rightarrow> None
                   | Some sl \<Rightarrow>
                       Some ((pulses m)[length (pulses m) - 1 :=
                               extendPulse (last (pulses m)) lastSampleIdx
                                 (Timestamp sl) lastDeriv]))
                else Some (pulses m))
             else Some (pulses m))"

text \<open>The test of the final loop that keeps a pulse.\<close>

definition validPulse :: "Meter \<Rightarrow> Pulse \<Rightarrow> bool" where
  "validPulse m p =
     (0 \<le> StartIndex p \<and> StartIndex p < int (length (samples m)) \<and>
      minPulseDuration m \<le> time_Sub (EndTime p) (StartTime p))"

definition updatePulses :: "Meter \<Rightarrow> Meter option" where
  "updatePulses m =
     (if derivatives m = [] then Some m
      else
        case (if threshold m < last (derivatives m) then heatingPulses m
              else Some (pulses m)) of
          None \<Rightarrow> None
        | Some ps \<Rightarrow> Some (m\<lparr>pulses := filter (validPulse m) ps\<rparr>))"

section \<open>Callbacks and the ingestion loop\<close>

fun invoke :: "Callback list \<Rightarrow> Sample list \<Rightarrow> real list \<Rightarrow> Pulse list \<Rightarrow> Call list" where
  "invoke [] ss ds ps = []"
| "invoke (None # cbs) ss ds ps = invoke cbs ss ds ps"
| "invoke (Some c # cbs) ss ds ps = (c, ss, ds, ps) # invoke cbs ss ds ps"

definition notifyCallbacks :: "Meter \<Rightarrow> Call list" where
  "notifyCallbacks m = invoke (callbacks m) (samples m) (derivatives m) (pulses m)"

definition OnUpdate :: "Callback \<Rightarrow> Meter \<Rightarrow> Meter" where
  "OnUpdate cb m = m\<lparr>callbacks := callbacks m @ [cb]\<rparr>"


text \<open>
  The state of \<open>processSample\<close> when it calls \<open>updatePulses\<close>: the sample appended, the
  window evicted, the derivative of the newest pair appended.
\<close>

definition pushSample :: "Meter \<Rightarrow> Sample \<Rightarrow> Meter" where
  "pushSample m s =
     (let m1 = m\<lparr>samples := samples m @ [s]\<rparr>;
          cutoffTime = time_Add (Timestamp s) (duration_neg (windowDuration m));
          cutoffIndex = findCutoff cutoffTime (samples m1) 0;
          m2 = (if 0 < cutoffIndex then evict cutoffIndex m1 else m1)
      in appendDerivative m2)"

definition processSample :: "Meter \<Rightarrow> Sample \<Rightarrow> (Meter \<times> Call list) option" where
  "processSample m s =
     (case updatePulses (pushSample m s) of
        None \<Rightarrow> None
      | Some m' \<Rightarrow> Some (m', if \<not> shutdown m' then notifyCallbacks m' else []))"

text \<open>The loop \<open>for s := range input\<close> over the samples the channel delivers.\<close>

fun feed :: "Meter \<Rightarrow> Sample list \<Rightarrow> (Meter \<times> Call list) option" where
  "feed m [] = Some (m, [])"
| "feed m (s # ss) =
     (case processSample m s of
        None \<Rightarrow> None
      | Some (m', cs) \<Rightarrow>
          (case feed m' ss of
             None \<Rightarrow> None
           | Some (m'', cs') \<Rightarrow> Some (m'', cs @ cs')))"



text \<open>The value of \<open>cutoffIndex\<close> that \<open>processSample\<close> computes for a new sample.\<close>

definition cutoffIndexOf :: "Meter \<Rightarrow> Sample \<Rightarrow> nat" where
  "cutoffIndexOf m s =
     findCutoff (time_Add (Timestamp s) (duration_neg (windowDuration m))) (samples m @ [s]) 0"

text \<open>
  The samples the repository's tests build: a timestamp in nanoseconds after the test's
  start, a reading, \<open>Voltage: 2.0\<close> and \<open>HeaterPower: 0.0\<close>.
\<close>

definition testSample :: "Time \<Rightarrow> real \<Rightarrow> Sample" where
  "testSample t r = \<lparr>Timestamp = t, Reading = r, Voltage = 2, HeaterPower = 0\<rparr>"

section \<open>The properties stated of the buffers\<close>

text \<open>
  The derivative the specification gives for a pair of adjacent samples, and the list of
  these derivatives for a sample buffer: one for each adjacent pair, in order.
\<close>

definition specDerivative :: "Sample \<Rightarrow> Sample \<Rightarrow> real" where
  "specDerivative a b =
     (Reading b - Reading a) / Seconds (time_Sub (Timestamp b) (Timestamp a))"

definition specDerivatives :: "Sample list \<Rightarrow> real list" where
  "specDerivatives xs = map (\<lambda>(a, b). specDerivative a b) (zip xs (tl xs))"

text \<open>A stream of samples with strictly increasing timestamps.\<close>

definition increasing :: "Sample list \<Rightarrow> bool" where
  "increasing xs = sorted_wrt (\<lambda>a b. Timestamp a < Timestamp b) xs"

text \<open>
  What the specification requires of a retained pulse: its indices are in order and
  inside the sample buffer, and its duration is at least the minimum pulse duration.
\<close>

definition pulseOK :: "Meter \<Rightarrow> Pulse \<Rightarrow> bool" where
  "pulseOK m p =
     (0 \<le> StartIndex p \<and> StartIndex p \<le> EndIndex p \<and>
      EndIndex p < int (length (samples m)) \<and>
      minPulseDuration m \<le> time_Sub (EndTime p) (StartTime p))"

text \<open>
  A stream whose consecutive samples are always closer together than the duration \<open>d\<close>.
\<close>

definition spacingBelow :: "Duration \<Rightarrow> Sample list \<Rightarrow> bool" where
  "spacingBelow d xs = list_all (\<lambda>(a, b). Timestamp b - Timestamp a < d) (zip xs (tl xs))"



section \<open>Basic facts\<close>

lemmas meter_defs = New_def pushSample_def processSample_def updatePulses_def heatingPulses_def
  shouldStart_def validPulse_def appendDerivative_def evict_def shiftPulse_def extendPulse_def
  sampleAt_def notifyCallbacks_def time_Sub_def time_Add_def time_After_def duration_neg_def
  Seconds_def maxDuration_def minDuration_def testSample_def Let_def

lemma findCutoff_takeWhile:
  "findCutoff c xs i =
     (if \<exists>x\<in>set xs. c < Timestamp x
      then i + length (takeWhile (\<lambda>x. \<not> c < Timestamp x) xs) else 0)"
  by (induction xs arbitrary: i) (auto simp: time_After_def)

lemma findCutoff_less:
  assumes "xs \<noteq> []"
  shows "findCutoff c xs 0 < length xs"
proof (cases "\<exists>x\<in>set xs. c < Timestamp x")
  case True
  then have "takeWhile (\<lambda>x. \<not> c < Timestamp x) xs \<noteq> xs"
    by auto
  then have "length (takeWhile (\<lambda>x. \<not> c < Timestamp x) xs) < length xs"
    using length_takeWhile_le [of "\<lambda>x. \<not> c < Timestamp x" xs]
    by (metis le_neq_implies_less takeWhile_eq_take take_all_iff order_refl)
  with True show ?thesis by (simp add: findCutoff_takeWhile)
next
  case False
  with assms show ?thesis by (simp add: findCutoff_takeWhile)
qed

lemma appendDerivative_samples [simp]: "samples (appendDerivative m) = samples m"
  by (simp add: appendDerivative_def Let_def)

lemma appendDerivative_pulses [simp]: "pulses (appendDerivative m) = pulses m"
  by (simp add: appendDerivative_def Let_def)

lemma appendDerivative_rest [simp]:
  "callbacks (appendDerivative m) = callbacks m"
  "windowDuration (appendDerivative m) = windowDuration m"
  "threshold (appendDerivative m) = threshold m"
  "minPulseDuration (appendDerivative m) = minPulseDuration m"
  "shutdown (appendDerivative m) = shutdown m"
  by (simp_all add: appendDerivative_def Let_def)

lemma evict_rest [simp]:
  "samples (evict c m) = drop c (samples m)"
  "callbacks (evict c m) = callbacks m"
  "windowDuration (evict c m) = windowDuration m"
  "threshold (evict c m) = threshold m"
  "minPulseDuration (evict c m) = minPulseDuration m"
  "shutdown (evict c m) = shutdown m"
  by (simp_all add: evict_def)

lemma pushSample_samples:
  "samples (pushSample m s) = drop (cutoffIndexOf m s) (samples m @ [s])"
  by (simp add: pushSample_def cutoffIndexOf_def Let_def)

lemma cutoffIndexOf_le: "cutoffIndexOf m s \<le> length (samples m)"
  using findCutoff_less [of "samples m @ [s]"
      "time_Add (Timestamp s) (duration_neg (windowDuration m))"]
  by (simp add: cutoffIndexOf_def)

lemma pushSample_samples_ne: "samples (pushSample m s) \<noteq> []"
  using cutoffIndexOf_le [of m s] by (simp add: pushSample_samples)

lemma pushSample_last: "last (samples (pushSample m s)) = s"
  using cutoffIndexOf_le [of m s] by (simp add: pushSample_samples)

lemma pushSample_rest [simp]:
  "callbacks (pushSample m s) = callbacks m"
  "windowDuration (pushSample m s) = windowDuration m"
  "threshold (pushSample m s) = threshold m"
  "minPulseDuration (pushSample m s) = minPulseDuration m"
  "shutdown (pushSample m s) = shutdown m"
  by (simp_all add: pushSample_def Let_def)

lemma updatePulses_fields:
  assumes "updatePulses m = Some m'"
  shows "samples m' = samples m" "derivatives m' = derivatives m"
    "callbacks m' = callbacks m" "windowDuration m' = windowDuration m"
    "threshold m' = threshold m" "minPulseDuration m' = minPulseDuration m"
    "shutdown m' = shutdown m"
  using assms by (auto simp: updatePulses_def split: if_splits option.splits)

text \<open>No index of \<open>updatePulses\<close> is out of range once the sample buffer is not empty.\<close>

lemma heatingPulses_total:
  assumes "samples m \<noteq> []"
  shows "\<exists>ps. heatingPulses m = Some ps"
proof -
  from assms have "0 < length (samples m)" by simp
  then show ?thesis
    by (auto simp: heatingPulses_def sampleAt_def Let_def split: option.splits)
qed

lemma updatePulses_total:
  assumes "samples m \<noteq> []"
  shows "\<exists>m'. updatePulses m = Some m'"
  using heatingPulses_total [OF assms]
  by (auto simp: updatePulses_def split: option.splits)

lemma processSample_total: "\<exists>m' cs. processSample m s = Some (m', cs)"
  using updatePulses_total [OF pushSample_samples_ne [of m s]]
  by (auto simp: processSample_def)

lemma processSample_samples:
  assumes "processSample m s = Some (m', cs)"
  shows "samples m' = drop (cutoffIndexOf m s) (samples m @ [s])"
  using assms updatePulses_fields(1) [of "pushSample m s" m']
  by (auto simp: processSample_def pushSample_samples split: option.splits)

lemma feed_total: "\<exists>m' cs. feed m xs = Some (m', cs)"
proof (induction xs arbitrary: m)
  case Nil
  show ?case by simp
next
  case (Cons x xs)
  obtain m1 cs1 where p: "processSample m x = Some (m1, cs1)"
    using processSample_total by blast
  obtain m2 cs2 where f: "feed m1 xs = Some (m2, cs2)"
    using Cons.IH by blast
  from p f show ?case by simp
qed

section \<open>Non-monotonic and duplicate timestamps\<close>

text \<open>
  C8, the claim as stated fails: after one sample at 100 ms, a second sample at 0 ms (a
  non-monotonic timestamp) is not skipped; the sample buffer grows from one sample to two.
\<close>

theorem C8_sample_not_skipped_counterexample:
  "feed (New 1000000000 (1/2) 0) [testSample 100000000 1] =
     Some (\<lparr>samples = [testSample 100000000 1], derivatives = [], pulses = [],
             callbacks = [], windowDuration = 1000000000, threshold = 1/2,
             minPulseDuration = 0, shutdown = False\<rparr>, []) \<and>
   processSample
     \<lparr>samples = [testSample 100000000 1], derivatives = [], pulses = [],
       callbacks = [], windowDuration = 1000000000, threshold = 1/2,
       minPulseDuration = 0, shutdown = False\<rparr> (testSample 0 2) =
     Some (\<lparr>samples = [testSample 100000000 1, testSample 0 2], derivatives = [],
             pulses = [], callbacks = [], windowDuration = 1000000000, threshold = 1/2,
             minPulseDuration = 0, shutdown = False\<rparr>, [])"
  by (simp add: meter_defs)

text \<open>
  C8, as amended: \<open>processSample\<close> accepts every sample, whatever its timestamp: it
  returns normally (no panic) for every state and every sample, the sample is the newest
  element of the sample buffer afterwards, and every further stream of samples is processed
  to its end as well.
\<close>

theorem C8_sample_accepted_never_halts:
  "\<exists>m' cs. processSample m s = Some (m', cs) \<and> samples m' \<noteq> [] \<and>
     last (samples m') = s \<and> (\<exists>m'' cs'. feed m' rest = Some (m'', cs'))"
proof -
  obtain m' cs where p: "processSample m s = Some (m', cs)"
    using processSample_total by blast
  have "samples m' = samples (pushSample m s)"
    using p updatePulses_fields(1) [of "pushSample m s" m']
    by (auto simp: processSample_def split: option.splits)
  then have "samples m' \<noteq> []" "last (samples m') = s"
    by (simp_all add: pushSample_samples_ne pushSample_last)
  with p feed_total [of m' rest] show ?thesis by blast
qed

section \<open>Shutdown and callbacks\<close>

lemma processSample_fields:
  assumes "processSample m s = Some (m', cs)"
  shows "callbacks m' = callbacks m" "windowDuration m' = windowDuration m"
    "threshold m' = threshold m" "minPulseDuration m' = minPulseDuration m"
    "shutdown m' = shutdown m"
  using assms updatePulses_fields(3-7) [of "pushSample m s" m']
  by (auto simp: processSample_def split: option.splits)


lemma feed_fields:
  assumes "feed m xs = Some (m', cs)"
  shows "callbacks m' = callbacks m \<and> windowDuration m' = windowDuration m \<and>
    threshold m' = threshold m \<and> minPulseDuration m' = minPulseDuration m \<and>
    shutdown m' = shutdown m"
  using assms
proof (induction xs arbitrary: m m' cs)
  case Nil
  then show ?case by simp
next
  case (Cons x xs)
  from Cons.prems obtain m1 cs1 m2 cs2
    where p: "processSample m x = Some (m1, cs1)" and f: "feed m1 xs = Some (m2, cs2)"
      and e: "m' = m2"
    by (auto split: option.splits)
  from Cons.IH [OF f] processSample_fields [OF p] e show ?case by simp
qed


text \<open>Every registered callback that is not \<open>nil\<close> is among the calls of a notification.\<close>

lemma invoke_delivers:
  "Some c \<in> set cbs \<Longrightarrow> (c, ss, ds, ps) \<in> set (invoke cbs ss ds ps)"
  by (induction cbs ss ds ps rule: invoke.induct) auto


section \<open>The sample and derivative buffers on increasing timestamps\<close>

lemma Seconds_Sub_pos: "0 < Seconds (time_Sub b a) \<longleftrightarrow> a < b"
  by (simp add: Seconds_def time_Sub_def maxDuration_def minDuration_def)

lemma length_specDerivatives [simp]: "length (specDerivatives xs) = length xs - 1"
  by (simp add: specDerivatives_def)

lemma specDerivatives_drop: "specDerivatives (drop c xs) = drop c (specDerivatives xs)"
  by (simp add: specDerivatives_def drop_zip drop_map drop_tl)

lemma specDerivatives_snoc:
  "xs \<noteq> [] \<Longrightarrow> specDerivatives (xs @ [s]) = specDerivatives xs @ [specDerivative (last xs) s]"
proof (induction xs)
  case Nil
  then show ?case by simp
next
  case (Cons x xs)
  then show ?case by (cases xs) (simp_all add: specDerivatives_def)
qed

lemma nth_specDerivatives:
  "Suc i < length xs \<Longrightarrow> specDerivatives xs ! i = specDerivative (xs ! i) (xs ! Suc i)"
  by (simp add: specDerivatives_def nth_tl)

lemma appendDerivative_snoc:
  assumes s: "samples m = zs @ [s]" and ne: "zs \<noteq> []"
    and d: "derivatives m = specDerivatives zs"
    and later: "Timestamp (last zs) < Timestamp s"
  shows "derivatives (appendDerivative m) = specDerivatives (zs @ [s])"
proof -
  have len: "length (samples m) = Suc (length zs)" "0 < length zs"
    using s ne by simp_all
  have prev: "samples m ! (length (samples m) - 1 - 1) = last zs"
    using ne len by (simp add: s nth_append last_conv_nth)
  have curr: "samples m ! (length (samples m) - 1) = s"
    by (simp add: s nth_append)
  have pos: "0 < Seconds (time_Sub (Timestamp s) (Timestamp (last zs)))"
    using later by (simp add: Seconds_Sub_pos)
  have one: "Suc 0 \<le> length zs" using ne by (cases zs) simp_all
  have two: "2 \<le> length (samples m)" using len one by simp
  have "derivatives (appendDerivative m) = derivatives m @ [specDerivative (last zs) s]"
    unfolding appendDerivative_def Let_def prev curr
    using two pos len one by (simp add: specDerivative_def d)
  then show ?thesis
    using ne by (simp add: d specDerivatives_snoc)
qed

text \<open>The derivative buffer after a push of a sample later than the newest stored one.\<close>

lemma pushSample_derivatives:
  assumes inv: "derivatives m = specDerivatives (samples m)"
    and later: "samples m \<noteq> [] \<Longrightarrow> Timestamp (last (samples m)) < Timestamp s"
  shows "derivatives (pushSample m s) = specDerivatives (samples (pushSample m s))"
proof -
  define c where "c = cutoffIndexOf m s"
  define m2 where "m2 = (if 0 < c then evict c (m\<lparr>samples := samples m @ [s]\<rparr>)
                         else m\<lparr>samples := samples m @ [s]\<rparr>)"
  define zs where "zs = drop c (samples m)"
  have cle: "c \<le> length (samples m)" unfolding c_def by (rule cutoffIndexOf_le)
  have push: "pushSample m s = appendDerivative m2"
    by (simp add: pushSample_def m2_def c_def cutoffIndexOf_def Let_def)
  have s2: "samples m2 = zs @ [s]"
    using cle by (simp add: m2_def zs_def)
  have d2: "derivatives m2 = specDerivatives zs"
    using inv by (auto simp: m2_def zs_def evict_def specDerivatives_drop)
  show ?thesis
  proof (cases "zs = []")
    case True
    then show ?thesis
      using s2 d2 by (simp add: push appendDerivative_def specDerivatives_def)
  next
    case False
    then have ne: "samples m \<noteq> []" by (auto simp: zs_def)
    have "last zs = last (samples m)"
      using False by (simp add: zs_def)
    then have "Timestamp (last zs) < Timestamp s"
      using later [OF ne] by simp
    from appendDerivative_snoc [OF s2 False d2 this] show ?thesis
      by (simp add: push s2)
  qed
qed


lemma dropWhile_filter_sorted:
  assumes "sorted_wrt R xs" and up: "\<And>a b. R a b \<Longrightarrow> Q a \<Longrightarrow> Q b"
  shows "dropWhile (\<lambda>x. \<not> Q x) xs = filter Q xs"
  using assms(1)
proof (induction xs)
  case Nil
  show ?case by simp
next
  case (Cons x xs)
  show ?case
  proof (cases "Q x")
    case True
    with Cons.prems up have "\<forall>y\<in>set xs. Q y" by auto
    then have "filter Q xs = xs" by (simp add: filter_id_conv)
    with True show ?thesis by simp
  next
    case False
    with Cons show ?thesis by simp
  qed
qed

text \<open>
  With a positive window and increasing timestamps, the push keeps exactly the samples
  after the cutoff time.
\<close>

lemma pushSample_samples_window:
  assumes w: "0 < windowDuration m" and inc: "increasing (samples m @ [s])"
  shows "samples (pushSample m s) =
           filter (\<lambda>x. Timestamp s - windowDuration m < Timestamp x) (samples m @ [s])"
proof -
  define c where "c = Timestamp s - windowDuration m"
  have cut: "time_Add (Timestamp s) (duration_neg (windowDuration m)) = c"
    using w by (simp add: time_Add_def duration_neg_def minDuration_def c_def)
  have ex: "\<exists>x\<in>set (samples m @ [s]). c < Timestamp x"
    using w by (simp add: c_def)
  have "cutoffIndexOf m s = length (takeWhile (\<lambda>x. \<not> c < Timestamp x) (samples m @ [s]))"
    unfolding cutoffIndexOf_def cut using ex by (simp only: findCutoff_takeWhile if_True)
  then have "samples (pushSample m s) = dropWhile (\<lambda>x. \<not> c < Timestamp x) (samples m @ [s])"
    by (simp only: pushSample_samples dropWhile_eq_drop)
  also have "\<dots> = filter (\<lambda>x. c < Timestamp x) (samples m @ [s])"
    using inc unfolding increasing_def
    by (rule dropWhile_filter_sorted) simp
  finally show ?thesis by (simp add: c_def)
qed

lemma feed_snoc:
  "feed m (xs @ [s]) =
     (case feed m xs of
        None \<Rightarrow> None
      | Some (m1, cs1) \<Rightarrow>
          (case processSample m1 s of
             None \<Rightarrow> None
           | Some (m2, cs2) \<Rightarrow> Some (m2, cs1 @ cs2)))"
  by (induction xs arbitrary: m) (auto split: option.splits)

lemma feed_snoc_Some:
  assumes "feed m (xs @ [s]) = Some (m2, cs)"
  obtains m1 cs1 cs2 where "feed m xs = Some (m1, cs1)" "processSample m1 s = Some (m2, cs2)"
  using assms by (auto simp: feed_snoc split: option.splits)

lemma processSample_push:
  assumes "processSample m s = Some (m', cs)"
  shows "samples m' = samples (pushSample m s)" "derivatives m' = derivatives (pushSample m s)"
    "updatePulses (pushSample m s) = Some m'"
  using assms updatePulses_fields(1,2) [of "pushSample m s" m']
  by (auto simp: processSample_def split: option.splits)

lemma increasing_snoc:
  "increasing (xs @ [s]) \<longleftrightarrow> increasing xs \<and> (\<forall>x\<in>set xs. Timestamp x < Timestamp s)"
  by (auto simp: increasing_def sorted_wrt_append)

lemma increasing_drop: "increasing xs \<Longrightarrow> increasing (drop k xs)"
  by (simp add: increasing_def sorted_wrt_drop)

text \<open>
  The buffers of every state reached from \<open>New\<close> on increasing timestamps: the samples
  are a suffix of the input, not empty once a sample was processed, and the derivatives
  are those of the adjacent pairs of samples.
\<close>

lemma feed_buffers:
  assumes "increasing xs" "feed (New w th mpd) xs = Some (m, cs)"
  shows "(\<exists>k\<le>length xs. samples m = drop k xs) \<and> (xs \<noteq> [] \<longrightarrow> samples m \<noteq> []) \<and>
         derivatives m = specDerivatives (samples m)"
  using assms
proof (induction xs arbitrary: m cs rule: rev_induct)
  case Nil
  then show ?case by (auto simp: New_def specDerivatives_def)
next
  case (snoc s xs)
  from snoc.prems(2) obtain m1 cs1 cs2
    where f: "feed (New w th mpd) xs = Some (m1, cs1)"
      and p: "processSample m1 s = Some (m, cs2)"
    by (rule feed_snoc_Some)
  from snoc.prems(1) have inc: "increasing xs" and lt: "\<forall>x\<in>set xs. Timestamp x < Timestamp s"
    by (simp_all add: increasing_snoc)
  from snoc.IH [OF inc f] obtain k
    where k: "k \<le> length xs" "samples m1 = drop k xs"
      and d1: "derivatives m1 = specDerivatives (samples m1)"
    by blast
  have later: "samples m1 \<noteq> [] \<Longrightarrow> Timestamp (last (samples m1)) < Timestamp s"
  proof -
    assume "samples m1 \<noteq> []"
    then have "last (samples m1) \<in> set (samples m1)" by simp
    then have "last (samples m1) \<in> set xs" using k(2) by (auto dest: in_set_dropD)
    with lt show ?thesis by blast
  qed
  define c where "c = cutoffIndexOf m1 s"
  have cle: "c \<le> length (samples m1)" unfolding c_def by (rule cutoffIndexOf_le)
  have sm: "samples m = drop c (samples m1 @ [s])"
    using processSample_samples [OF p] by (simp add: c_def)
  have "samples m1 @ [s] = drop k (xs @ [s])" using k by simp
  then have "samples m = drop (c + k) (xs @ [s])"
    by (simp only: sm drop_drop)
  moreover have "c + k \<le> length (xs @ [s])" using cle k by simp
  moreover have "samples m \<noteq> []" using sm cle by simp
  moreover have "derivatives m = specDerivatives (samples m)"
    using pushSample_derivatives [OF d1 later] processSample_push(1,2) [OF p] by simp
  ultimately show ?case by blast
qed

lemma feed_New_config:
  assumes "feed (New w th mpd) xs = Some (m, cs)"
  shows "windowDuration m = w" "threshold m = th" "minPulseDuration m = mpd"
  using feed_fields [OF assms] by (simp_all add: New_def)

lemma feed_samples_window:
  assumes "0 < w" "increasing xs" "feed (New w th mpd) xs = Some (m, cs)"
  shows "samples m = filter (\<lambda>x. Timestamp (last xs) - w < Timestamp x) xs"
  using assms(2,3)
proof (induction xs arbitrary: m cs rule: rev_induct)
  case Nil
  then show ?case by (auto simp: New_def)
next
  case (snoc s ys)
  from snoc.prems(2) obtain m1 cs1 cs2
    where f: "feed (New w th mpd) ys = Some (m1, cs1)"
      and p: "processSample m1 s = Some (m, cs2)"
    by (rule feed_snoc_Some)
  from snoc.prems(1) have inc: "increasing ys" and lt: "\<forall>x\<in>set ys. Timestamp x < Timestamp s"
    by (simp_all add: increasing_snoc)
  have w1: "windowDuration m1 = w" using feed_New_config(1) [OF f] .
  have s1: "samples m1 = filter (\<lambda>x. Timestamp (last ys) - w < Timestamp x) ys"
    using snoc.IH [OF inc f] .
  have "increasing (samples m1)"
    using inc unfolding s1 increasing_def by (rule sorted_wrt_filter)
  moreover have "\<forall>x\<in>set (samples m1). Timestamp x < Timestamp s"
    using lt by (simp add: s1)
  ultimately have inc1: "increasing (samples m1 @ [s])"
    by (simp add: increasing_snoc)
  have "samples m = filter (\<lambda>x. Timestamp s - w < Timestamp x) (samples m1 @ [s])"
    using pushSample_samples_window [of m1 s] inc1 \<open>0 < w\<close> w1 processSample_push(1) [OF p]
    by simp
  also have "\<dots> = filter (\<lambda>x. Timestamp s - w < Timestamp x) (ys @ [s])"
  proof (cases "ys = []")
    case True
    then show ?thesis by (simp add: s1)
  next
    case False
    then have "last ys \<in> set ys" by simp
    with lt have "Timestamp (last ys) < Timestamp s" by blast
    then have "filter (\<lambda>x. Timestamp s - w < Timestamp x) (samples m1) =
        filter (\<lambda>x. Timestamp s - w < Timestamp x) ys"
      unfolding s1 filter_filter by (intro filter_cong refl) auto
    then show ?thesis by simp
  qed
  finally show ?case by simp
qed

section \<open>The time window\<close>

text \<open>
  C6: with a positive window duration \<open>w\<close> (the configuration contract) and strictly
  increasing timestamps, after the push of the sample \<open>s\<close> that follows the samples
  \<open>xs\<close> the buffer holds exactly the pushed samples whose timestamp is after
  \<open>Timestamp s - w\<close>, the cutoff of the latest sample: those at or before the cutoff are
  gone, \<open>s\<close> is the newest sample, and every sample of the buffer is strictly after the
  cutoff.
\<close>

theorem C6_window_invariant:
  assumes "0 < w" and "increasing (xs @ [s])"
  shows "\<exists>m cs. feed (New w th mpd) (xs @ [s]) = Some (m, cs) \<and>
           samples m = filter (\<lambda>x. Timestamp s - w < Timestamp x) (xs @ [s]) \<and>
           last (samples m) = s \<and>
           (\<forall>x\<in>set (samples m). Timestamp s - w < Timestamp x)"
proof -
  obtain m cs where f: "feed (New w th mpd) (xs @ [s]) = Some (m, cs)"
    using feed_total by blast
  have sm: "samples m = filter (\<lambda>x. Timestamp s - w < Timestamp x) (xs @ [s])"
    using feed_samples_window [OF assms f] by simp
  have "last (samples m) = s"
    using \<open>0 < w\<close> by (simp add: sm)
  moreover have "\<forall>x\<in>set (samples m). Timestamp s - w < Timestamp x"
    by (simp add: sm)
  ultimately show ?thesis using f sm by blast
qed

text \<open>
  The theorem of C6 at a window of 1 s and samples at 0 s, 0.4 s, 0.9 s and 1.4 s: the
  samples at 0 s and 0.4 s are evicted.
\<close>

theorem C6_window_invariant_witness:
  "(0::int) < 1000000000 \<and>
   increasing ([testSample 0 1, testSample 400000000 2, testSample 900000000 3] @
               [testSample 1400000000 4]) \<and>
   (\<exists>m cs. feed (New 1000000000 (1/2) 0)
             ([testSample 0 1, testSample 400000000 2, testSample 900000000 3] @
              [testSample 1400000000 4]) = Some (m, cs) \<and>
           samples m = [testSample 900000000 3, testSample 1400000000 4])"
proof -
  have w: "(0::int) < 1000000000" by simp
  have i: "increasing ([testSample 0 1, testSample 400000000 2, testSample 900000000 3] @
               [testSample 1400000000 4])"
    by (simp add: increasing_def testSample_def)
  from C6_window_invariant [OF w i, of "1/2" 0] obtain m cs
    where f: "feed (New 1000000000 (1/2) 0)
             ([testSample 0 1, testSample 400000000 2, testSample 900000000 3] @
              [testSample 1400000000 4]) = Some (m, cs)"
      and sm: "samples m = filter (\<lambda>x. Timestamp (testSample 1400000000 4) - 1000000000 < Timestamp x)
             ([testSample 0 1, testSample 400000000 2, testSample 900000000 3] @
              [testSample 1400000000 4])"
    by blast
  from sm have "samples m = [testSample 900000000 3, testSample 1400000000 4]"
    by (simp add: testSample_def)
  with w i f show ?thesis by blast
qed



section \<open>The correspondence of derivatives and samples\<close>

text \<open>
  On strictly increasing timestamps the correspondence holds in every state reached from
  \<open>New\<close>: one derivative less than samples, each the derivative of its pair.
\<close>

lemma feed_derivatives_increasing:
  assumes "increasing xs" "feed (New w th mpd) xs = Some (m, cs)"
  shows "length (derivatives m) = length (samples m) - 1"
    and "Suc i < length (samples m) \<Longrightarrow>
           derivatives m ! i = specDerivative (samples m ! i) (samples m ! Suc i)"
  using feed_buffers [OF assms] by (simp_all add: nth_specDerivatives)

text \<open>
  C1, the code at the failing input: two samples with the same timestamp.  Both samples
  are stored and no derivative is, so the number of derivatives is 0 and not
  \<open>max(0, 2 - 1) = 1\<close>.
\<close>

theorem C1_duplicate_timestamp_no_derivative:
  "feed (New 1000000000 (1/2) 0) [testSample 0 1, testSample 0 2] =
   Some (\<lparr>samples = [testSample 0 1, testSample 0 2], derivatives = [], pulses = [],
           callbacks = [], windowDuration = 1000000000, threshold = 1/2,
           minPulseDuration = 0, shutdown = False\<rparr>, [])"
  by (simp add: meter_defs)

section \<open>Retained pulses\<close>

lemma pushSample_pulses:
  "pulses (pushSample m s) =
     (if 0 < cutoffIndexOf m s
      then filter (\<lambda>p. 0 \<le> StartIndex p \<and> 0 \<le> EndIndex p)
             (map (shiftPulse (int (cutoffIndexOf m s))) (pulses m))
      else pulses m)"
  by (simp add: pushSample_def cutoffIndexOf_def Let_def evict_def)

lemma pushSample_length:
  "length (samples (pushSample m s)) = Suc (length (samples m)) - cutoffIndexOf m s"
  by (simp add: pushSample_samples)

text \<open>Eviction: the renumbered pulses end before the newest sample.\<close>

lemma pushSample_pulseOK:
  assumes "\<forall>p\<in>set (pulses m). pulseOK m p" and "q \<in> set (pulses (pushSample m s))"
  shows "0 \<le> StartIndex q \<and> StartIndex q \<le> EndIndex q \<and>
         EndIndex q < int (length (samples (pushSample m s))) - 1 \<and>
         minPulseDuration m \<le> time_Sub (EndTime q) (StartTime q)"
proof -
  define c where "c = cutoffIndexOf m s"
  have cle: "c \<le> length (samples m)" unfolding c_def by (rule cutoffIndexOf_le)
  have len: "int (length (samples (pushSample m s))) - 1 = int (length (samples m)) - int c"
    using cle by (simp add: pushSample_length c_def)
  show ?thesis
  proof (cases "0 < c")
    case True
    with assms(2) obtain p where p: "p \<in> set (pulses m)" and q: "q = shiftPulse (int c) p"
      and nn: "0 \<le> StartIndex q" "0 \<le> EndIndex q"
      by (auto simp: pushSample_pulses c_def)
    from assms(1) p have "pulseOK m p" by blast
    then show ?thesis
      using nn unfolding len by (simp add: q shiftPulse_def pulseOK_def)
  next
    case False
    with assms(2) have "q \<in> set (pulses m)" by (simp add: pushSample_pulses c_def)
    with assms(1) have "pulseOK m q" by blast
    then show ?thesis
      using False unfolding len by (simp add: pulseOK_def)
  qed
qed


lemma findActivePulse_Some:
  "findActivePulse ps e = Some a \<Longrightarrow> a < length ps \<and> EndIndex (ps ! a) = e"
proof (induction ps arbitrary: a)
  case Nil
  then show ?case by simp
next
  case (Cons p ps)
  then show ?case by (auto split: option.splits if_splits)
qed


lemma heatingPulses_shape:
  assumes h: "heatingPulses m = Some ps"
    and pre: "\<forall>p\<in>set (pulses m). StartIndex p \<le> EndIndex p \<and>
                 EndIndex p < int (length (samples m)) - 1"
    and ne: "samples m \<noteq> []"
    and q: "q \<in> set ps"
  shows "StartIndex q \<le> EndIndex q \<and> EndIndex q < int (length (samples m))"
proof -
  define L where "L = int (length (samples m)) - 1"
  have L0: "0 \<le> L" using ne by (cases "samples m") (simp_all add: L_def)
  have old: "\<And>p. p \<in> set (pulses m) \<Longrightarrow> StartIndex p \<le> EndIndex p \<and> EndIndex p < L"
    using pre by (simp add: L_def)
  have upd: "\<And>i p t d. p \<in> set (pulses m) \<Longrightarrow> q \<in> set ((pulses m)[i := extendPulse p L t d]) \<Longrightarrow>
      StartIndex q \<le> EndIndex q \<and> EndIndex q < L + 1"
  proof -
    fix i p t d
    assume p: "p \<in> set (pulses m)" and "q \<in> set ((pulses m)[i := extendPulse p L t d])"
    then have "q = extendPulse p L t d \<or> q \<in> set (pulses m)"
      using set_update_subset_insert [of "pulses m" i "extendPulse p L t d"] by auto
    then show "StartIndex q \<le> EndIndex q \<and> EndIndex q < L + 1"
      using old [OF p] old [of q] by (auto simp: extendPulse_def)
  qed
  show ?thesis
  proof (cases "findActivePulse (pulses m) (L - 1)")
    case (Some a)
    then have "pulses m ! a \<in> set (pulses m)"
      using findActivePulse_Some [OF Some] by simp
    with h Some q upd show ?thesis
      by (auto simp: heatingPulses_def Let_def L_def split: option.splits)
  next
    case None
    show ?thesis
    proof (cases "shouldStart m")
      case True
      with h None q have
        "q \<in> set (pulses m) \<or>
         (StartIndex q = (if L - 1 < 0 then 0 else L - 1) \<and> EndIndex q = L)"
        by (auto simp: heatingPulses_def Let_def L_def split: option.splits)
      then show ?thesis using old [of q] L0 by (auto simp: L_def)
    next
      case False
      show ?thesis
      proof (cases "pulses m = []")
        case True
        with h None False q show ?thesis
          by (auto simp: heatingPulses_def Let_def L_def split: option.splits)
      next
        case ne: False
        then have lastin: "last (pulses m) \<in> set (pulses m)" by simp
        from h None False ne have
          "ps = pulses m \<or>
           (\<exists>t d. ps = (pulses m)[length (pulses m) - 1 := extendPulse (last (pulses m)) L t d])"
          by (auto simp: heatingPulses_def Let_def L_def split: option.splits if_splits)
        then show ?thesis
        proof
          assume "ps = pulses m"
          with q old [of q] show ?thesis by (simp add: L_def)
        next
          assume "\<exists>t d. ps = (pulses m)[length (pulses m) - 1 :=
                            extendPulse (last (pulses m)) L t d]"
          then obtain t d where
            "ps = (pulses m)[length (pulses m) - 1 := extendPulse (last (pulses m)) L t d]"
            by blast
          with q upd [OF lastin] show ?thesis by (simp add: L_def)
        qed
      qed
    qed
  qed
qed

text \<open>Detection: what \<open>updatePulses\<close> keeps is well formed and long enough.\<close>

lemma updatePulses_pulseOK:
  assumes pre: "\<forall>p\<in>set (pulses m). 0 \<le> StartIndex p \<and> StartIndex p \<le> EndIndex p \<and>
                 EndIndex p < int (length (samples m)) - 1 \<and>
                 minPulseDuration m \<le> time_Sub (EndTime p) (StartTime p)"
    and ne: "samples m \<noteq> []"
    and u: "updatePulses m = Some m'"
  shows "\<forall>p\<in>set (pulses m'). pulseOK m' p"
proof (cases "derivatives m = []")
  case True
  with u have "m' = m" by (simp add: updatePulses_def)
  with pre show ?thesis by (auto simp: pulseOK_def)
next
  case False
  have pre': "\<forall>p\<in>set (pulses m). StartIndex p \<le> EndIndex p \<and>
                 EndIndex p < int (length (samples m)) - 1"
    using pre by blast
  from u False obtain ps where ps: "pulses m' = filter (validPulse m) ps"
    and src: "ps = pulses m \<or> heatingPulses m = Some ps"
    by (auto simp: updatePulses_def split: if_splits option.splits)
  have shape: "\<And>q. q \<in> set ps \<Longrightarrow>
      StartIndex q \<le> EndIndex q \<and> EndIndex q < int (length (samples m))"
    using src heatingPulses_shape [OF _ pre' ne] pre' by fastforce
  have "samples m' = samples m" "minPulseDuration m' = minPulseDuration m"
    using updatePulses_fields [OF u] by simp_all
  then show ?thesis
    using shape by (auto simp: ps pulseOK_def validPulse_def)
qed

lemma processSample_pulseOK:
  assumes "\<forall>p\<in>set (pulses m). pulseOK m p" and p: "processSample m s = Some (m', cs)"
  shows "\<forall>p\<in>set (pulses m'). pulseOK m' p"
proof (rule updatePulses_pulseOK [OF _ pushSample_samples_ne processSample_push(3) [OF p]])
  show "\<forall>q\<in>set (pulses (pushSample m s)). 0 \<le> StartIndex q \<and> StartIndex q \<le> EndIndex q \<and>
          EndIndex q < int (length (samples (pushSample m s))) - 1 \<and>
          minPulseDuration (pushSample m s) \<le> time_Sub (EndTime q) (StartTime q)"
    using pushSample_pulseOK [OF assms(1)] by simp
qed

lemma feed_pulseOK:
  assumes "\<forall>p\<in>set (pulses m). pulseOK m p" and "feed m xs = Some (m', cs)"
  shows "\<forall>p\<in>set (pulses m'). pulseOK m' p"
  using assms
proof (induction xs arbitrary: m m' cs)
  case Nil
  then show ?case by simp
next
  case (Cons x xs)
  from Cons.prems(2) obtain m1 cs1 cs2
    where p: "processSample m x = Some (m1, cs1)" and f: "feed m1 xs = Some (m', cs2)"
    by (auto split: option.splits)
  from Cons.IH [OF processSample_pulseOK [OF Cons.prems(1) p] f] show ?case .
qed

text \<open>
  C7: in every state reached from \<open>New\<close> by processing a stream of samples (every
  stream, so in particular every stream with strictly increasing timestamps), every
  retained pulse satisfies \<open>0 \<le> StartIndex \<le> EndIndex < len(samples)\<close> and
  \<open>EndTime - StartTime \<ge> minPulseDuration\<close>.  The eviction step
  (\<open>pushSample_pulseOK\<close>) and the detection step (\<open>updatePulses_pulseOK\<close>) each
  preserve it.
\<close>

theorem C7_retained_pulses_valid:
  "\<exists>m cs. feed (New w th mpd) xs = Some (m, cs) \<and> minPulseDuration m = mpd \<and>
     (\<forall>p\<in>set (pulses m). pulseOK m p)"
proof -
  obtain m cs where f: "feed (New w th mpd) xs = Some (m, cs)"
    using feed_total by blast
  have "\<forall>p\<in>set (pulses (New w th mpd)). pulseOK (New w th mpd) p"
    by (simp add: New_def)
  from feed_pulseOK [OF this f] feed_New_config(3) [OF f] f show ?thesis by blast
qed

text \<open>
  The theorem of C7 on two samples 0.1 s apart with a rise above the threshold: the one
  retained pulse spans the indices 0 to 1 and lasts the minimum duration of 0.1 s.
\<close>

theorem C7_retained_pulses_valid_witness:
  "\<exists>m cs. feed (New 10000000000 (1/2) 100000000)
             [testSample 0 0, testSample 100000000 1] = Some (m, cs) \<and>
     pulses m = [\<lparr>StartIndex = 0, EndIndex = 1, StartTime = 0, EndTime = 100000000,
                  RawValue = 10, Power = 0\<rparr>] \<and>
     pulseOK m \<lparr>StartIndex = 0, EndIndex = 1, StartTime = 0, EndTime = 100000000,
                RawValue = 10, Power = 0\<rparr>"
proof -
  from C7_retained_pulses_valid [of 10000000000 "1/2" 100000000
      "[testSample 0 0, testSample 100000000 1]"]
  obtain m cs
    where f: "feed (New 10000000000 (1/2) 100000000)
                [testSample 0 0, testSample 100000000 1] = Some (m, cs)"
      and ok: "\<forall>p\<in>set (pulses m). pulseOK m p"
    by blast
  have "feed (New 10000000000 (1/2) 100000000) [testSample 0 0, testSample 100000000 1] =
      Some (\<lparr>samples = [testSample 0 0, testSample 100000000 1], derivatives = [10],
              pulses = [\<lparr>StartIndex = 0, EndIndex = 1, StartTime = 0, EndTime = 100000000,
                         RawValue = 10, Power = 0\<rparr>],
              callbacks = [], windowDuration = 10000000000, threshold = 1/2,
              minPulseDuration = 100000000, shutdown = False\<rparr>, [])"
    by (simp add: meter_defs)
  with f have ps: "pulses m = [\<lparr>StartIndex = 0, EndIndex = 1, StartTime = 0,
                                EndTime = 100000000, RawValue = 10, Power = 0\<rparr>]"
    by auto
  with ok have "pulseOK m \<lparr>StartIndex = 0, EndIndex = 1, StartTime = 0, EndTime = 100000000,
                RawValue = 10, Power = 0\<rparr>"
    by simp
  with f ps show ?thesis by blast
qed

section \<open>Streams sampled faster than the minimum pulse duration\<close>

lemma spacingBelow_iff:
  "spacingBelow d xs \<longleftrightarrow>
     (\<forall>i. Suc i < length xs \<longrightarrow> Timestamp (xs ! Suc i) - Timestamp (xs ! i) < d)"
  by (auto simp: spacingBelow_def list_all_length nth_tl)

lemma spacingBelow_drop: "spacingBelow d xs \<Longrightarrow> spacingBelow d (drop k xs)"
  by (auto simp: spacingBelow_iff)

lemma spacingBelow_take: "spacingBelow d xs \<Longrightarrow> spacingBelow d (take k xs)"
  by (auto simp: spacingBelow_iff)

lemma increasing_take: "increasing xs \<Longrightarrow> increasing (take k xs)"
  by (simp add: increasing_def sorted_wrt_take)

lemma increasing_nth:
  "increasing xs \<Longrightarrow> Suc i < length xs \<Longrightarrow> Timestamp (xs ! i) < Timestamp (xs ! Suc i)"
  by (simp add: increasing_def sorted_wrt_iff_nth_less)

lemma time_Sub_le: "u \<le> t \<Longrightarrow> time_Sub t u \<le> t - u"
  by (simp add: time_Sub_def maxDuration_def minDuration_def)

text \<open>
  With no pulse stored and the newest pair of samples closer than the minimum pulse
  duration, \<open>updatePulses\<close> leaves no pulse: the pulse it may create lasts one sample
  interval and does not pass the filter.
\<close>

lemma updatePulses_no_pulses:
  assumes np: "pulses m = []"
    and len: "length (derivatives m) = length (samples m) - 1"
    and short: "2 \<le> length (samples m) \<Longrightarrow>
        time_Sub (Timestamp (samples m ! (length (samples m) - 1)))
                 (Timestamp (samples m ! (length (samples m) - 2))) < minPulseDuration m"
    and u: "updatePulses m = Some m'"
  shows "pulses m' = []"
proof (cases "derivatives m = []")
  case True
  with u np show ?thesis by (simp add: updatePulses_def)
next
  case False
  with len have two: "2 \<le> length (samples m)" by (cases "derivatives m") auto
  define n where "n = length (samples m)"
  have a: "sampleAt (samples m) (int n - 1) = Some (samples m ! (n - 1))"
    using two by (auto simp: sampleAt_def n_def nat_diff_distrib)
  have b: "sampleAt (samples m) (int n - 1 - 1) = Some (samples m ! (n - 2))"
    using two by (auto simp: sampleAt_def n_def nat_diff_distrib)
  have c: "\<not> int n - 1 - 1 < 0" using two by (simp add: n_def)
  have d: "time_Sub (Timestamp (samples m ! (n - 1))) (Timestamp (samples m ! (n - 2)))
             < minPulseDuration m"
    using short [OF two] by (simp add: n_def)
  show ?thesis
    using u False np a b c d
    by (auto simp: updatePulses_def heatingPulses_def validPulse_def Let_def n_def
             split: if_splits option.splits)
qed

lemma feed_no_pulses:
  assumes "increasing xs" "spacingBelow mpd xs" "feed (New w th mpd) xs = Some (m, cs)"
  shows "pulses m = []"
  using assms
proof (induction xs arbitrary: m cs rule: rev_induct)
  case Nil
  then show ?case by (auto simp: New_def)
next
  case (snoc s ys)
  from snoc.prems(3) obtain m1 cs1 cs2
    where f: "feed (New w th mpd) ys = Some (m1, cs1)"
      and p: "processSample m1 s = Some (m, cs2)"
    by (rule feed_snoc_Some)
  have inc: "increasing ys" using snoc.prems(1) by (simp add: increasing_snoc)
  have sp: "spacingBelow mpd ys"
    using spacingBelow_take [OF snoc.prems(2), of "length ys"] by simp
  have p1: "pulses m1 = []" using snoc.IH [OF inc sp f] .
  define mp where "mp = pushSample m1 s"
  have u: "updatePulses mp = Some m" using processSample_push(3) [OF p] by (simp add: mp_def)
  have np: "pulses mp = []" using p1 by (simp add: mp_def pushSample_pulses)
  from feed_buffers [OF snoc.prems(1) snoc.prems(3)] obtain k
    where sm: "samples m = drop k (ys @ [s])"
      and dm: "derivatives m = specDerivatives (samples m)"
    by blast
  have smp: "samples mp = samples m" "derivatives mp = derivatives m"
    using processSample_push(1,2) [OF p] by (simp_all add: mp_def)
  have mpdm: "minPulseDuration mp = mpd"
    using feed_New_config(3) [OF f] by (simp add: mp_def)
  have len: "length (derivatives mp) = length (samples mp) - 1"
    by (simp add: smp dm)
  have incm: "increasing (samples mp)"
    unfolding smp sm using snoc.prems(1) by (rule increasing_drop)
  have spm: "spacingBelow mpd (samples mp)"
    unfolding smp sm using snoc.prems(2) by (rule spacingBelow_drop)
  have short: "2 \<le> length (samples mp) \<Longrightarrow>
        time_Sub (Timestamp (samples mp ! (length (samples mp) - 1)))
                 (Timestamp (samples mp ! (length (samples mp) - 2))) < minPulseDuration mp"
  proof -
    assume two: "2 \<le> length (samples mp)"
    define i where "i = length (samples mp) - 2"
    have i: "Suc i < length (samples mp)" "length (samples mp) - 1 = Suc i"
      using two by (simp_all add: i_def)
    have lt: "Timestamp (samples mp ! i) < Timestamp (samples mp ! Suc i)"
      using increasing_nth [OF incm i(1)] .
    have "Timestamp (samples mp ! Suc i) - Timestamp (samples mp ! i) < mpd"
      using spm i(1) by (simp add: spacingBelow_iff)
    moreover have "time_Sub (Timestamp (samples mp ! Suc i)) (Timestamp (samples mp ! i))
        \<le> Timestamp (samples mp ! Suc i) - Timestamp (samples mp ! i)"
      using lt by (intro time_Sub_le) simp
    ultimately show ?thesis
      unfolding i(2) mpdm i_def [symmetric] by simp
  qed
  from updatePulses_no_pulses [OF np len short u] show ?case .
qed

text \<open>
  With no pulse stored and the previous derivative above the threshold, no pulse is
  started.
\<close>

lemma shouldStart_no_pulses:
  assumes "pulses m = []" "2 \<le> length (derivatives m)"
    and "threshold m < derivatives m ! (length (derivatives m) - 2)"
  shows "\<not> shouldStart m"
proof -
  have "length (derivatives m) - 1 - 1 = length (derivatives m) - 2" by simp
  with assms show ?thesis by (simp add: shouldStart_def Let_def)
qed

text \<open>
  C10: for every stream of samples with strictly increasing timestamps whose consecutive
  samples are always closer together than \<open>minPulseDuration\<close>, the pulse list is empty
  after every processed sample (after every prefix \<open>take k xs\<close> of the stream), whatever
  the readings and the threshold are.
\<close>

theorem C10_short_spacing_no_pulse:
  assumes "increasing xs" and "spacingBelow mpd xs"
  shows "\<exists>m cs. feed (New w th mpd) (take k xs) = Some (m, cs) \<and> pulses m = []"
proof -
  obtain m cs where f: "feed (New w th mpd) (take k xs) = Some (m, cs)"
    using feed_total by blast
  from feed_no_pulses [OF increasing_take [OF assms(1)] spacingBelow_take [OF assms(2)] f] f
  show ?thesis by blast
qed

text \<open>
  The theorem of C10 on three samples 0.1 s apart, every derivative above the threshold,
  with a minimum pulse duration of 1 s.
\<close>

theorem C10_short_spacing_no_pulse_witness:
  "increasing [testSample 0 0, testSample 100000000 1, testSample 200000000 2] \<and>
   spacingBelow 1000000000 [testSample 0 0, testSample 100000000 1, testSample 200000000 2] \<and>
   (\<exists>m cs. feed (New 10000000000 (1/2) 1000000000)
              [testSample 0 0, testSample 100000000 1, testSample 200000000 2] = Some (m, cs) \<and>
            pulses m = [])"
proof -
  have i: "increasing [testSample 0 0, testSample 100000000 1, testSample 200000000 2]"
    by (simp add: increasing_def testSample_def)
  have s: "spacingBelow 1000000000
             [testSample 0 0, testSample 100000000 1, testSample 200000000 2]"
    by (simp add: spacingBelow_def testSample_def)
  from C10_short_spacing_no_pulse [OF i s, of 10000000000 "1/2" 3] i s
  show ?thesis by simp
qed

section \<open>The branches of updatePulses\<close>











section \<open>The minimum-duration filter\<close>




section \<open>Opening a pulse\<close>




section \<open>Extending a pulse\<close>






end
